theory Spec2Isabelle
  imports Main
begin

section \<open>The implicit treap of treap.cpp\<close>

text \<open>
  The class \<open>Node\<close> of the source is embedded as a tree datatype: the null pointer is
  \<open>Null\<close>, and a node carries its scalar members in a record and owns its two children.
  Every treap of the program is single-rooted and no node is shared, so in-place mutation
  of a node through a pointer is modelled by returning the rewritten node.

  The members are C++ \<open>int\<close>s. The program never does arithmetic on values (it only
  compares and copies them), and the only arithmetic on sizes and indices is bounded by
  the number of nodes, so they are modelled as mathematical integers.
\<close>

record fields =
  value_f :: int
  priority_f :: int
  min_value_f :: int
  reverse_f :: bool
  size_f :: int
  height_f :: int

datatype node = Null | Node (fields: fields) (left_child: node) (right_child: node)

subsection \<open>Getters\<close>

fun get_value :: "node \<Rightarrow> int" where
  "get_value Null = -1"
| "get_value (Node f l r) = value_f f"

fun get_min_value :: "node \<Rightarrow> int" where
  "get_min_value Null = 1073741824"
| "get_min_value (Node f l r) = min_value_f f"

fun get_priority :: "node \<Rightarrow> int" where
  "get_priority Null = -1"
| "get_priority (Node f l r) = priority_f f"

fun get_size :: "node \<Rightarrow> int" where
  "get_size Null = 0"
| "get_size (Node f l r) = size_f f"

fun get_height :: "node \<Rightarrow> int" where
  "get_height Null = 0"
| "get_height (Node f l r) = height_f f"

definition max_of :: "int \<Rightarrow> int \<Rightarrow> int" where
  "max_of a b = (if a > b then a else b)"

definition min_of :: "int \<Rightarrow> int \<Rightarrow> int" where
  "min_of a b = (if a < b then a else b)"

subsection \<open>Aggregate maintenance and lazy propagation\<close>

fun reset_min :: "node \<Rightarrow> node" where
  "reset_min Null = Null"
| "reset_min (Node f l r) = Node (f\<lparr>min_value_f := value_f f\<rparr>) l r"

fun swap_children :: "node \<Rightarrow> node" where
  "swap_children Null = Null"
| "swap_children (Node f l r) = Node f r l"

fun recalc :: "node \<Rightarrow> node" where
  "recalc Null = Null"
| "recalc (Node f l r) =
     (let f1 = f\<lparr>size_f := 1 + get_size l + get_size r\<rparr> in
      if l = Null \<and> r = Null
      then Node (f1\<lparr>height_f := 0, min_value_f := value_f f1\<rparr>) l r
      else Node (f1\<lparr>height_f := 1 + max_of (get_height l) (get_height r),
                    min_value_f := min_of (get_min_value (Node f1 l r))
                                     (min_of (get_min_value l) (get_min_value r))\<rparr>) l r)"

text \<open>\<open>x->reverse ^= true\<close>, guarded by the source's test that \<open>x\<close> is not null.\<close>

fun toggle_reverse :: "node \<Rightarrow> node" where
  "toggle_reverse Null = Null"
| "toggle_reverse (Node f l r) = Node (f\<lparr>reverse_f := (reverse_f f \<noteq> True)\<rparr>) l r"

fun propagate :: "node \<Rightarrow> node" where
  "propagate Null = Null"
| "propagate (Node f l r) =
     (if reverse_f f
      then (case swap_children (Node f (toggle_reverse l) (toggle_reverse r)) of
              Null \<Rightarrow> Null
            | Node f' l' r' \<Rightarrow> recalc (Node (f'\<lparr>reverse_f := False\<rparr>) l' r'))
      else Node f l r)"

text \<open>The constructor \<open>Node(int value)\<close>; the random priority it draws is a parameter.\<close>

definition new_node :: "int \<Rightarrow> int \<Rightarrow> node" where
  "new_node v p =
     recalc (Node \<lparr>value_f = v, priority_f = p, min_value_f = v, reverse_f = False,
                    size_f = 0, height_f = 0\<rparr> Null Null)"

fun nodes :: "node \<Rightarrow> nat" where
  "nodes Null = 0"
| "nodes (Node f l r) = Suc (nodes l + nodes r)"

fun set_left :: "node \<Rightarrow> node \<Rightarrow> node" where
  "set_left Null c = Null"
| "set_left (Node f l r) c = Node f c r"

fun set_right :: "node \<Rightarrow> node \<Rightarrow> node" where
  "set_right Null c = Null"
| "set_right (Node f l r) c = Node f l c"

lemma nodes_toggle_reverse [simp]: "nodes (toggle_reverse t) = nodes t"
  by (cases t) simp_all

lemma toggle_reverse_eq_Null [simp]: "toggle_reverse t = Null \<longleftrightarrow> t = Null"
  by (cases t) simp_all

lemma nodes_recalc [simp]: "nodes (recalc t) = nodes t"
  by (cases t) (simp_all add: Let_def)

lemma nodes_propagate [simp]: "nodes (propagate t) = nodes t"
  by (cases t) (simp_all add: Let_def)

lemma propagate_eq_Null [simp]: "propagate t = Null \<longleftrightarrow> t = Null"
  by (cases t) (simp_all add: Let_def)

lemma nodes_left_child_less: "t \<noteq> Null \<Longrightarrow> nodes (left_child t) < nodes t"
  by (cases t) simp_all

lemma nodes_right_child_less: "t \<noteq> Null \<Longrightarrow> nodes (right_child t) < nodes t"
  by (cases t) simp_all

subsection \<open>Merge and split\<close>

function merge :: "node \<Rightarrow> node \<Rightarrow> node" where
  "merge Null right = right"
| "merge (Node lf ll lr) Null = Node lf ll lr"
| "merge (Node lf ll lr) (Node rf rl rr) =
     (let left = propagate (Node lf ll lr);
          right = propagate (Node rf rl rr)
      in if get_priority left > get_priority right
         then recalc (reset_min (set_right left (merge (right_child left) right)))
         else recalc (reset_min (set_left right (merge left (left_child right)))))"
  by pat_completeness auto
termination
proof (relation "measure (\<lambda>(a, b). nodes a + nodes b)")
  show "wf (measure (\<lambda>(a, b). nodes a + nodes b))" by simp
next
  fix lf ll lr rf rl rr left right
  assume "left = propagate (Node lf ll lr)" "right = propagate (Node rf rl rr)"
  then show "((right_child left, right), Node lf ll lr, Node rf rl rr)
               \<in> measure (\<lambda>(a, b). nodes a + nodes b)"
    using nodes_right_child_less [of left] nodes_propagate [of "Node lf ll lr"]
      nodes_propagate [of "Node rf rl rr"] propagate_eq_Null [of "Node lf ll lr"]
    by (simp del: propagate.simps nodes_propagate propagate_eq_Null)
next
  fix lf ll lr rf rl rr left right
  assume "left = propagate (Node lf ll lr)" "right = propagate (Node rf rl rr)"
  then show "((left, left_child right), Node lf ll lr, Node rf rl rr)
               \<in> measure (\<lambda>(a, b). nodes a + nodes b)"
    using nodes_left_child_less [of right] nodes_propagate [of "Node lf ll lr"]
      nodes_propagate [of "Node rf rl rr"] propagate_eq_Null [of "Node rf rl rr"]
    by (simp del: propagate.simps nodes_propagate propagate_eq_Null)
qed

function split :: "node \<Rightarrow> int \<Rightarrow> node \<times> node" where
  "split Null index = (Null, Null)"
| "split (Node f l r) index =
     (let current = propagate (Node f l r) in
      if get_size (left_child current) \<ge> index
      then (let left_res = split (left_child current) index
            in (fst left_res, recalc (reset_min (set_left current (snd left_res)))))
      else (let index' = index - get_size (left_child current) - 1;
                right_res = split (right_child current) index'
            in (recalc (reset_min (set_right current (fst right_res))), snd right_res)))"
  by pat_completeness auto
termination
proof (relation "measure (\<lambda>(t, k). nodes t)")
  show "wf (measure (\<lambda>(t, k). nodes t))" by simp
next
  fix f l r current and index :: int
  assume "current = propagate (Node f l r)"
  then show "((left_child current, index), Node f l r, index) \<in> measure (\<lambda>(t, k). nodes t)"
    using nodes_left_child_less [of current] nodes_propagate [of "Node f l r"]
      propagate_eq_Null [of "Node f l r"]
    by (simp del: propagate.simps nodes_propagate propagate_eq_Null)
next
  fix f l r current and index index' :: int
  assume "current = propagate (Node f l r)"
  then show "((right_child current, index'), Node f l r, index) \<in> measure (\<lambda>(t, k). nodes t)"
    using nodes_right_child_less [of current] nodes_propagate [of "Node f l r"]
      propagate_eq_Null [of "Node f l r"]
    by (simp del: propagate.simps nodes_propagate propagate_eq_Null)
qed

subsection \<open>Derived operations\<close>

text \<open>
  Two places of the source reach through a pointer that may be null: \<open>find_min\<close> invokes
  itself as a member of the child it descends into, and \<open>reverse_subarray\<close> writes the
  \<open>reverse\<close> member of the middle part. Both are undefined behaviour in C++ and are
  branches of the model. (A build that tolerates the member call on a null receiver runs
  into the callee's own null test and returns \<open>-1\<close>; no position either way.) The driver
  reads \<open>array[0]\<close> even when no element was read into it.
\<close>

datatype error = NullReceiver | NullDereference | UninitialisedRead

text \<open>
  \<open>find_min\<close> propagates on its way down, so it rewrites the treap it searches; the
  model returns the index together with the treap as the call leaves it.
\<close>

function find_min :: "node \<Rightarrow> int \<Rightarrow> error + (int \<times> node)" where
  "find_min Null indices_passed = Inr (-1, Null)"
| "find_min (Node f l r) indices_passed =
     (let current = propagate (Node f l r);
          index = get_size (left_child current) + indices_passed
      in if get_min_value current = get_min_value (left_child current)
         then (if left_child current = Null then Inl NullReceiver
               else (case find_min (left_child current) indices_passed of
                       Inl e \<Rightarrow> Inl e
                     | Inr (res, c) \<Rightarrow> Inr (res, set_left current c)))
         else if get_min_value current = get_min_value (right_child current)
         then (if right_child current = Null then Inl NullReceiver
               else (case find_min (right_child current) (index + 1) of
                       Inl e \<Rightarrow> Inl e
                     | Inr (res, c) \<Rightarrow> Inr (res, set_right current c)))
         else Inr (index, current))"
  by pat_completeness auto
termination
proof (relation "measure (\<lambda>(t, k). nodes t)")
  show "wf (measure (\<lambda>(t, k). nodes t))" by simp
next
  fix f l r current and indices_passed :: int
  assume "current = propagate (Node f l r)"
  then show "((left_child current, indices_passed), Node f l r, indices_passed)
               \<in> measure (\<lambda>(t, k). nodes t)"
    using nodes_left_child_less [of current] nodes_propagate [of "Node f l r"]
      propagate_eq_Null [of "Node f l r"]
    by (simp del: propagate.simps nodes_propagate propagate_eq_Null)
next
  fix f l r current and indices_passed index :: int
  assume "current = propagate (Node f l r)"
  then show "((right_child current, index + 1), Node f l r, indices_passed)
               \<in> measure (\<lambda>(t, k). nodes t)"
    using nodes_right_child_less [of current] nodes_propagate [of "Node f l r"]
      propagate_eq_Null [of "Node f l r"]
    by (simp del: propagate.simps nodes_propagate propagate_eq_Null)
qed

definition remove_first :: "node \<Rightarrow> node" where
  "remove_first root =
     (if get_size root \<ge> 1 then (let res = split root 1 in snd res) else root)"

definition reverse_subarray :: "node \<Rightarrow> int \<Rightarrow> int \<Rightarrow> error + node" where
  "reverse_subarray root from to =
     (let res_left = split root from;
          before_subarray = fst res_left;
          rest = snd res_left;
          res_right = split rest (to - from + 1);
          subarray = fst res_right;
          after_subarray = snd res_right
      in if subarray = Null then Inl NullDereference
         else Inr (merge (merge before_subarray (toggle_reverse subarray)) after_subarray))"

text \<open>
  The member \<open>inorder\<close> prints the sequence a treap stands for; the model returns the
  printed values.
\<close>

function inorder :: "node \<Rightarrow> int list" where
  "inorder Null = []"
| "inorder (Node f l r) =
     (let this = propagate (Node f l r)
      in inorder (left_child this) @ [value_f (fields this)] @ inorder (right_child this))"
  by pat_completeness auto
termination
proof (relation "measure nodes")
  show "wf (measure nodes)" by simp
next
  fix f l r this
  assume "this = propagate (Node f l r)"
  then show "(left_child this, Node f l r) \<in> measure nodes"
    using nodes_left_child_less [of this] nodes_propagate [of "Node f l r"]
      propagate_eq_Null [of "Node f l r"]
    by (simp del: propagate.simps nodes_propagate propagate_eq_Null)
next
  fix f l r this
  assume "this = propagate (Node f l r)"
  then show "(right_child this, Node f l r) \<in> measure nodes"
    using nodes_right_child_less [of this] nodes_propagate [of "Node f l r"]
      propagate_eq_Null [of "Node f l r"]
    by (simp del: propagate.simps nodes_propagate propagate_eq_Null)
qed

subsection \<open>The driver\<close>

text \<open>
  The input array is given with the priority each element's node draws. The first loop
  of \<open>main\<close> merges one node per element onto the root.
\<close>

fun build_loop :: "node \<Rightarrow> (int \<times> int) list \<Rightarrow> error + node" where
  "build_loop root [] = Inr root"
| "build_loop root ((v, p) # rest) =
     (if root = Null then Inl NullReceiver
      else build_loop (merge root (new_node v p)) rest)"

text \<open>The value of the node that \<open>remove_first\<close> hands to \<open>delete\<close>.\<close>

definition deleted_values :: "node \<Rightarrow> int list" where
  "deleted_values root =
     (if get_size root \<ge> 1
      then (case fst (split root 1) of Null \<Rightarrow> [] | Node f l r \<Rightarrow> [value_f f])
      else [])"

text \<open>
  The query loop, with the number of iterations left and the counter \<open>i\<close>. It returns the
  numbers printed, the values deleted from the front in the order of deletion, and the
  final root.
\<close>

fun queries :: "nat \<Rightarrow> int \<Rightarrow> node \<Rightarrow> error + (int list \<times> int list \<times> node)" where
  "queries 0 i root = Inr ([], [], root)"
| "queries (Suc k) i root =
     (if root = Null then Inl NullReceiver
      else (case find_min root 0 of
              Inl e \<Rightarrow> Inl e
            | Inr (index_of_i, root1) \<Rightarrow>
                (case (if index_of_i \<noteq> 0 then reverse_subarray root1 0 index_of_i
                       else Inr root1) of
                   Inl e \<Rightarrow> Inl e
                 | Inr root2 \<Rightarrow>
                     if root2 = Null then Inl NullReceiver
                     else (case queries k (i + 1) (remove_first root2) of
                             Inl e \<Rightarrow> Inl e
                           | Inr (printed, deleted, final) \<Rightarrow>
                               Inr ((index_of_i + i + 1) # printed,
                                    deleted_values root2 @ deleted, final)))))"

definition main :: "(int \<times> int) list \<Rightarrow> error + (int list \<times> int list \<times> node)" where
  "main array =
     (case array of
        [] \<Rightarrow> Inl UninitialisedRead
      | (v, p) # rest \<Rightarrow>
          (case build_loop (new_node v p) rest of
             Inl e \<Rightarrow> Inl e
           | Inr root \<Rightarrow> queries (length array) 0 root))"

subsection \<open>The invariants of the cached aggregates\<close>

text \<open>
  A treap is a node tree whose cached sizes obey the size invariant of the data model.
  The cached minimum of a node is what \<open>recalc\<close> computes after \<open>reset_min\<close>: the
  value of a leaf, and for an inner node the least of its value and its children's cached
  minima, where \<open>get_min_value\<close> reads a missing child as \<open>1 << 30\<close>.
\<close>

fun size_ok :: "node \<Rightarrow> bool" where
  "size_ok Null = True"
| "size_ok (Node f l r) = (size_f f = 1 + get_size l + get_size r \<and> size_ok l \<and> size_ok r)"

fun min_ok :: "node \<Rightarrow> bool" where
  "min_ok Null = True"
| "min_ok (Node f l r) =
     (min_value_f f = (if l = Null \<and> r = Null then value_f f
                       else min (value_f f) (min (get_min_value l) (get_min_value r)))
      \<and> min_ok l \<and> min_ok r)"

text \<open>
  The least element of a sequence, read with the same \<open>1 << 30\<close> for the empty sequence.
\<close>

fun seq_min :: "int list \<Rightarrow> int" where
  "seq_min [] = 1073741824"
| "seq_min (x # xs) = min x (seq_min xs)"

text \<open>
  \<open>same_view t' t\<close>: the treap \<open>t'\<close> stands for the same sequence as \<open>t\<close>, with the same
  cached size and minimum at the root, and keeps the invariants.
\<close>

definition same_view :: "node \<Rightarrow> node \<Rightarrow> bool" where
  "same_view t' t \<longleftrightarrow>
     inorder t' = inorder t \<and> size_ok t' \<and> min_ok t' \<and> get_size t' = get_size t \<and>
     get_min_value t' = get_min_value t \<and> (t' = Null) = (t = Null)"

subsection \<open>Notions of the specification\<close>

text \<open>
  The sequence with the closed segment of the positions \<open>i..j\<close> reversed and every other
  position unchanged, as the specification describes the result of a range reversal.
\<close>

definition reverse_segment :: "int list \<Rightarrow> nat \<Rightarrow> nat \<Rightarrow> int list" where
  "reverse_segment xs i j = take i xs @ rev (take (j - i + 1) (drop i xs)) @ drop (j + 1) xs"

text \<open>
  The position the specification names for the minimum: that of its leftmost occurrence.
\<close>

definition leftmost_min_position :: "int list \<Rightarrow> int" where
  "leftmost_min_position xs = int (length (takeWhile (\<lambda>x. x \<noteq> Min (set xs)) xs))"

text \<open>
  The public operations a caller can apply to a treap it has built, and a sequence of
  them run from left to right. An operation that reaches through a null pointer ends the
  run.
\<close>

datatype operation = ReverseSubarray int int | RemoveFirst | FindMin

fun apply_operation :: "node \<Rightarrow> operation \<Rightarrow> error + node" where
  "apply_operation t (ReverseSubarray from to) = reverse_subarray t from to"
| "apply_operation t RemoveFirst = Inr (remove_first t)"
| "apply_operation t FindMin =
     (case find_min t 0 of Inl e \<Rightarrow> Inl e | Inr (i, t') \<Rightarrow> Inr t')"

fun run_operations :: "node \<Rightarrow> operation list \<Rightarrow> error + node" where
  "run_operations t [] = Inr t"
| "run_operations t (x # xs) =
     (case apply_operation t x of Inl e \<Rightarrow> Inl e | Inr t' \<Rightarrow> run_operations t' xs)"

text \<open>
  The driving procedure in the words of the specification, on the sequence itself: in
  each of \<open>n\<close> steps report the position of the minimum plus the step number plus one,
  reverse the prefix up to that position when it is not the front, and drop the first
  element. It returns the reported numbers and the elements dropped, in order.
\<close>

fun driving_procedure :: "nat \<Rightarrow> int \<Rightarrow> int list \<Rightarrow> int list \<times> int list" where
  "driving_procedure 0 step xs = ([], [])"
| "driving_procedure (Suc n) step xs =
     (let index = leftmost_min_position xs;
          ys = (if index \<noteq> 0 then reverse_segment xs 0 (nat index) else xs);
          rest = driving_procedure n (step + 1) (tl ys)
      in ((index + step + 1) # fst rest, take 1 ys @ snd rest))"

subsection \<open>Concrete treaps\<close>

text \<open>
  A treap with pending reversals, standing for the sequence 4, 2, 1, 3; the concrete
  instances below are taken at it.
\<close>

definition example_treap :: node where
  "example_treap =
     Node \<lparr>value_f = 2, priority_f = 9, min_value_f = 1, reverse_f = True,
           size_f = 4, height_f = 2\<rparr>
       (Node \<lparr>value_f = 1, priority_f = 5, min_value_f = 1, reverse_f = False,
             size_f = 2, height_f = 1\<rparr>
          (Node \<lparr>value_f = 3, priority_f = 2, min_value_f = 3, reverse_f = False,
                size_f = 1, height_f = 0\<rparr> Null Null)
          Null)
       (Node \<lparr>value_f = 4, priority_f = 7, min_value_f = 4, reverse_f = True,
             size_f = 1, height_f = 0\<rparr> Null Null)"

text \<open>
  A node as \<open>split\<close> leaves it between detaching a child and calling \<open>reset_min\<close>: the
  cached minimum 1 belonged to the child that is gone.
\<close>

definition stale_node :: node where
  "stale_node =
     Node \<lparr>value_f = 5, priority_f = 9, min_value_f = 1, reverse_f = False,
           size_f = 3, height_f = 1\<rparr> (new_node 7 4) Null"

text \<open>The treap that \<open>main\<close> builds for the input 1, 1 with the priorities 5 and 2.\<close>

definition duplicate_treap :: node where
  "duplicate_treap =
     Node \<lparr>value_f = 1, priority_f = 5, min_value_f = 1, reverse_f = False,
           size_f = 2, height_f = 1\<rparr>
       Null
       (Node \<lparr>value_f = 1, priority_f = 2, min_value_f = 1, reverse_f = False,
             size_f = 1, height_f = 0\<rparr> Null Null)"

text \<open>
  The treap that \<open>main\<close> builds for the input 2000000000, 1, 1500000000 with the priorities
  3, 9, 5: values above \<open>1 << 30\<close> around a small minimum.
\<close>

definition mixed_treap :: node where
  "mixed_treap =
     Node \<lparr>value_f = 1, priority_f = 9, min_value_f = 1, reverse_f = False,
           size_f = 3, height_f = 1\<rparr>
       (Node \<lparr>value_f = 2000000000, priority_f = 3, min_value_f = 2000000000,
             reverse_f = False, size_f = 1, height_f = 0\<rparr> Null Null)
       (Node \<lparr>value_f = 1500000000, priority_f = 5, min_value_f = 1500000000,
             reverse_f = False, size_f = 1, height_f = 0\<rparr> Null Null)"

text \<open>The treap that \<open>main\<close> builds for the input 1073741825, 1073741826 with equal priorities.\<close>

definition large_treap :: node where
  "large_treap =
     Node \<lparr>value_f = 1073741826, priority_f = 0, min_value_f = 1073741824, reverse_f = False,
           size_f = 2, height_f = 1\<rparr>
       (Node \<lparr>value_f = 1073741825, priority_f = 0, min_value_f = 1073741825,
             reverse_f = False, size_f = 1, height_f = 0\<rparr> Null Null)
       Null"

section \<open>Properties of the primitives\<close>

subsection \<open>Propagation, recalculation and the in-order sequence\<close>

lemma min_of_eq [simp]: "min_of a b = min a b"
  by (simp add: min_of_def min_def)

lemma max_of_eq [simp]: "max_of a b = max a b"
  by (simp add: max_of_def max_def)

lemma recalc_Node:
  "recalc (Node f l r) =
     Node (f\<lparr>size_f := 1 + get_size l + get_size r,
             height_f := (if l = Null \<and> r = Null then 0
                          else 1 + max (get_height l) (get_height r)),
             min_value_f := (if l = Null \<and> r = Null then value_f f
                             else min (min_value_f f)
                                    (min (get_min_value l) (get_min_value r)))\<rparr>) l r"
  by (simp add: Let_def)

declare recalc.simps(2) [simp del]
declare recalc_Node [simp]

lemma recalc_eq_Null [simp]: "recalc t = Null \<longleftrightarrow> t = Null"
  by (cases t) (simp_all add: Let_def)

lemma reset_min_eq_Null [simp]: "reset_min t = Null \<longleftrightarrow> t = Null"
  by (cases t) simp_all

lemma propagate_Node:
  "propagate (Node f l r) =
     (if reverse_f f
      then recalc (Node (f\<lparr>reverse_f := False\<rparr>) (toggle_reverse r) (toggle_reverse l))
      else Node f l r)"
  by simp

lemma reverse_propagate [simp]: "t \<noteq> Null \<Longrightarrow> \<not> reverse_f (fields (propagate t))"
  by (cases t) (simp_all add: Let_def)

lemma value_propagate [simp]: "value_f (fields (propagate t)) = value_f (fields t)"
  by (cases t) (simp_all add: Let_def)

lemma priority_propagate [simp]: "get_priority (propagate t) = get_priority t"
  by (cases t) (simp_all add: Let_def)

lemma inorder_plain:
  "\<not> reverse_f f \<Longrightarrow> inorder (Node f l r) = inorder l @ value_f f # inorder r"
  by simp

lemma inorder_toggle_reverse [simp]: "inorder (toggle_reverse t) = rev (inorder t)"
proof (induction t)
  case Null
  show ?case by simp
next
  case (Node f l r)
  show ?case
    using Node.IH by (cases "reverse_f f") (simp_all add: Let_def)
qed

lemma inorder_Node [simp]:
  "inorder (Node f l r) =
     (if reverse_f f then rev (inorder r) @ value_f f # rev (inorder l)
      else inorder l @ value_f f # inorder r)"
  by (simp add: Let_def)

declare inorder.simps(2) [simp del]

lemma inorder_recalc [simp]: "inorder (recalc t) = inorder t"
  by (cases t) (simp_all add: Let_def)

lemma inorder_reset_min [simp]: "inorder (reset_min t) = inorder t"
  by (cases t) simp_all

lemma inorder_propagate [simp]: "inorder (propagate t) = inorder t"
  by (cases t) (simp_all add: Let_def)

lemma inorder_eq_Nil [simp]: "inorder t = [] \<longleftrightarrow> t = Null"
  by (cases t) simp_all

lemma inorder_unfold:
  "t \<noteq> Null \<Longrightarrow> \<not> reverse_f (fields t) \<Longrightarrow>
   inorder t = inorder (left_child t) @ value_f (fields t) # inorder (right_child t)"
  by (cases t) simp_all

lemma inorder_set_left:
  "t \<noteq> Null \<Longrightarrow> \<not> reverse_f (fields t) \<Longrightarrow>
   inorder (set_left t c) = inorder c @ value_f (fields t) # inorder (right_child t)"
  by (cases t) simp_all

lemma inorder_set_right:
  "t \<noteq> Null \<Longrightarrow> \<not> reverse_f (fields t) \<Longrightarrow>
   inorder (set_right t c) = inorder (left_child t) @ value_f (fields t) # inorder c"
  by (cases t) simp_all

lemma inorder_propagate_unfold:
  "inorder (Node f l r) =
     inorder (left_child (propagate (Node f l r))) @ value_f f
       # inorder (right_child (propagate (Node f l r)))"
  using inorder_unfold [of "propagate (Node f l r)"] inorder_propagate [of "Node f l r"]
  by (simp del: propagate.simps inorder_Node inorder_propagate)


declare propagate.simps(2) [simp del]

lemma inorder_merge [simp]: "inorder (merge a b) = inorder a @ inorder b"
proof (induction a b rule: merge.induct)
  case (1 right)
  show ?case by simp
next
  case (2 lf ll lr)
  show ?case by simp
next
  case (3 lf ll lr rf rl rr)
  let ?L = "propagate (Node lf ll lr)"
  let ?R = "propagate (Node rf rl rr)"
  have L: "?L \<noteq> Null" and R: "?R \<noteq> Null" by simp_all
  have nL: "\<not> reverse_f (fields ?L)" and nR: "\<not> reverse_f (fields ?R)" by simp_all
  have iL: "inorder (Node lf ll lr) = inorder (left_child ?L) @ value_f (fields ?L) # inorder (right_child ?L)"
    using inorder_unfold [OF L nL] by (simp del: inorder_Node)
  have iR: "inorder (Node rf rl rr) = inorder (left_child ?R) @ value_f (fields ?R) # inorder (right_child ?R)"
    using inorder_unfold [OF R nR] by (simp del: inorder_Node)
  show ?case
  proof (cases "get_priority ?L > get_priority ?R")
    case True
    have "inorder (merge (right_child ?L) ?R) = inorder (right_child ?L) @ inorder ?R"
      using "3.IH"(1) [OF refl refl True] .
    then show ?thesis
      using True iL
      by (simp add: Let_def inorder_set_right [OF L nL] del: inorder_Node get_priority.simps priority_propagate)
  next
    case False
    have "inorder (merge ?L (left_child ?R)) = inorder ?L @ inorder (left_child ?R)"
      using "3.IH"(2) [OF refl refl False] .
    then show ?thesis
      using False iR
      by (simp add: Let_def inorder_set_left [OF R nR] del: inorder_Node get_priority.simps priority_propagate)
  qed
qed


subsection \<open>Sizes\<close>

lemma get_size_toggle_reverse [simp]: "get_size (toggle_reverse t) = get_size t"
  by (cases t) simp_all

lemma size_ok_toggle_reverse [simp]: "size_ok (toggle_reverse t) = size_ok t"
  by (cases t) simp_all

lemma size_ok_reset_min [simp]: "size_ok (reset_min t) = size_ok t"
  by (cases t) simp_all

lemma get_size_length: "size_ok t \<Longrightarrow> get_size t = int (length (inorder t))"
  by (induction t) simp_all

lemma size_ok_propagate: "size_ok t \<Longrightarrow> size_ok (propagate t)"
  by (cases t) (simp_all add: propagate_Node)

lemma size_ok_children_propagate:
  "size_ok t \<Longrightarrow> t \<noteq> Null \<Longrightarrow>
   size_ok (left_child (propagate t)) \<and> size_ok (right_child (propagate t))"
  by (cases t) (simp_all add: propagate_Node)

lemma get_size_propagate [simp]: "size_ok t \<Longrightarrow> get_size (propagate t) = get_size t"
  by (cases t) (simp_all add: propagate_Node)

lemma size_ok_set_right:
  "t \<noteq> Null \<Longrightarrow>
   size_ok (recalc (reset_min (set_right t c))) = (size_ok (left_child t) \<and> size_ok c)"
  by (cases t) simp_all

lemma size_ok_set_left:
  "t \<noteq> Null \<Longrightarrow>
   size_ok (recalc (reset_min (set_left t c))) = (size_ok c \<and> size_ok (right_child t))"
  by (cases t) simp_all

lemma size_ok_merge: "size_ok a \<Longrightarrow> size_ok b \<Longrightarrow> size_ok (merge a b)"
proof (induction a b rule: merge.induct)
  case (1 right)
  then show ?case by simp
next
  case (2 lf ll lr)
  then show ?case by simp
next
  case (3 lf ll lr rf rl rr)
  let ?L = "propagate (Node lf ll lr)"
  let ?R = "propagate (Node rf rl rr)"
  have L: "?L \<noteq> Null" and R: "?R \<noteq> Null" by simp_all
  have sL: "size_ok ?L" and sR: "size_ok ?R"
    using "3.prems" by (simp_all only: size_ok_propagate)
  have cL: "size_ok (left_child ?L) \<and> size_ok (right_child ?L)"
    using size_ok_children_propagate [OF "3.prems"(1)] by simp
  have cR: "size_ok (left_child ?R) \<and> size_ok (right_child ?R)"
    using size_ok_children_propagate [OF "3.prems"(2)] by simp
  show ?case
  proof (cases "get_priority ?L > get_priority ?R")
    case True
    have "size_ok (merge (right_child ?L) ?R)"
      using "3.IH"(1) [OF refl refl True] cL sR by simp
    then show ?thesis
      using True cL
      by (simp add: Let_def size_ok_set_right [OF L] del: get_priority.simps priority_propagate size_ok.simps)
  next
    case False
    have "size_ok (merge ?L (left_child ?R))"
      using "3.IH"(2) [OF refl refl False] cR sL by simp
    then show ?thesis
      using False cR
      by (simp add: Let_def size_ok_set_left [OF R] del: get_priority.simps priority_propagate size_ok.simps)
  qed
qed

lemma length_inorder_merge:
  "size_ok a \<Longrightarrow> size_ok b \<Longrightarrow> get_size (merge a b) = get_size a + get_size b"
  by (simp add: get_size_length size_ok_merge)

subsection \<open>Split\<close>

lemma size_ok_split:
  "size_ok t \<Longrightarrow> size_ok (fst (split t k)) \<and> size_ok (snd (split t k))"
proof (induction t k rule: split.induct)
  case (1 index)
  show ?case by simp
next
  case (2 f l r index)
  let ?C = "propagate (Node f l r)"
  have C: "?C \<noteq> Null" by simp
  have cC: "size_ok (left_child ?C) \<and> size_ok (right_child ?C)"
    using size_ok_children_propagate [OF "2.prems"] by simp
  show ?case
  proof (cases "get_size (left_child ?C) \<ge> index")
    case True
    have "size_ok (fst (split (left_child ?C) index)) \<and> size_ok (snd (split (left_child ?C) index))"
      using "2.IH"(1) [OF refl True] cC by simp
    then show ?thesis
      using True cC by (simp add: Let_def size_ok_set_left [OF C] del: size_ok.simps)
  next
    case False
    have "size_ok (fst (split (right_child ?C) (index - get_size (left_child ?C) - 1)))
        \<and> size_ok (snd (split (right_child ?C) (index - get_size (left_child ?C) - 1)))"
      using "2.IH"(2) [OF refl False refl] cC by simp
    then show ?thesis
      using False cC by (simp add: Let_def size_ok_set_right [OF C] del: size_ok.simps)
  qed
qed

lemma inorder_split:
  "size_ok t \<Longrightarrow>
   inorder (fst (split t k)) = take (nat k) (inorder t) \<and>
   inorder (snd (split t k)) = drop (nat k) (inorder t)"
proof (induction t k rule: split.induct)
  case (1 index)
  show ?case by simp
next
  case (2 f l r index)
  let ?C = "propagate (Node f l r)"
  have C: "?C \<noteq> Null" and nC: "\<not> reverse_f (fields ?C)" by simp_all
  have cC: "size_ok (left_child ?C) \<and> size_ok (right_child ?C)"
    using size_ok_children_propagate [OF "2.prems"] by simp
  have iC: "inorder (Node f l r) = inorder (left_child ?C) @ value_f (fields ?C) # inorder (right_child ?C)"
    using inorder_unfold [OF C nC] by (simp del: inorder_Node)
  have len: "get_size (left_child ?C) = int (length (inorder (left_child ?C)))"
    using cC by (simp add: get_size_length)
  show ?case
  proof (cases "get_size (left_child ?C) \<ge> index")
    case True
    have IH: "inorder (fst (split (left_child ?C) index)) = take (nat index) (inorder (left_child ?C))
        \<and> inorder (snd (split (left_child ?C) index)) = drop (nat index) (inorder (left_child ?C))"
      using "2.IH"(1) [OF refl True] cC by simp
    have le: "nat index \<le> length (inorder (left_child ?C))"
      using True len by simp
    show ?thesis
      using True IH le
      by (simp add: Let_def inorder_set_left [OF C nC] iC del: inorder_Node)
  next
    case False
    let ?k = "index - get_size (left_child ?C) - 1"
    have IH: "inorder (fst (split (right_child ?C) ?k)) = take (nat ?k) (inorder (right_child ?C))
        \<and> inorder (snd (split (right_child ?C) ?k)) = drop (nat ?k) (inorder (right_child ?C))"
      using "2.IH"(2) [OF refl False refl] cC by simp
    have k: "nat index = Suc (length (inorder (left_child ?C)) + nat ?k)"
      using False len by simp
    show ?thesis
      using False IH
      by (simp add: Let_def inorder_set_right [OF C nC] iC k del: inorder_Node)
  qed
qed

lemma inorder_split_append:
  "inorder (fst (split t k)) @ inorder (snd (split t k)) = inorder t"
proof (induction t k rule: split.induct)
  case (1 index)
  show ?case by simp
next
  case (2 f l r index)
  let ?C = "propagate (Node f l r)"
  have C: "?C \<noteq> Null" and nC: "\<not> reverse_f (fields ?C)" by simp_all
  have iC: "inorder (Node f l r) = inorder (left_child ?C) @ value_f (fields ?C) # inorder (right_child ?C)"
    using inorder_unfold [OF C nC] by (simp del: inorder_Node)
  show ?case
  proof (cases "get_size (left_child ?C) \<ge> index")
    case True
    show ?thesis
      using True "2.IH"(1) [OF refl True]
      by (simp add: Let_def inorder_set_left [OF C nC] iC del: inorder_Node)
  next
    case False
    show ?thesis
      using False "2.IH"(2) [OF refl False refl]
      by (simp add: Let_def inorder_set_right [OF C nC] iC del: inorder_Node)
  qed
qed

subsection \<open>Sequence minima\<close>

lemma seq_min_le_sentinel: "seq_min xs \<le> 1073741824"
  by (induction xs) simp_all

lemma seq_min_append [simp]: "seq_min (xs @ ys) = min (seq_min xs) (seq_min ys)"
  using seq_min_le_sentinel [of ys] by (induction xs) (simp_all add: min.assoc)

lemma seq_min_rev [simp]: "seq_min (rev xs) = seq_min xs"
proof (induction xs)
  case Nil
  show ?case by simp
next
  case (Cons a xs)
  have "min (seq_min xs) (min a 1073741824) = min a (seq_min xs)"
    using seq_min_le_sentinel [of xs] by (simp add: min_def)
  with Cons show ?case by simp
qed

lemma seq_min_le: "x \<in> set xs \<Longrightarrow> seq_min xs \<le> x"
  by (induction xs) auto

lemma seq_min_eq_Min:
  "xs \<noteq> [] \<Longrightarrow> seq_min xs = min (Min (set xs)) 1073741824"
proof (induction xs)
  case Nil
  then show ?case by simp
next
  case (Cons a xs)
  show ?case
  proof (cases "xs = []")
    case True
    then show ?thesis by simp
  next
    case False
    with Cons.IH have "seq_min xs = min (Min (set xs)) 1073741824" by simp
    moreover have "Min (set (a # xs)) = min a (Min (set xs))"
      using False by simp
    ultimately show ?thesis by (simp add: min.assoc)
  qed
qed

subsection \<open>Cached minima\<close>

lemma get_min_value_toggle_reverse [simp]:
  "get_min_value (toggle_reverse t) = get_min_value t"
  by (cases t) simp_all

lemma min_ok_toggle_reverse [simp]: "min_ok (toggle_reverse t) = min_ok t"
  by (cases t) simp_all

lemma min_ok_set_right:
  "t \<noteq> Null \<Longrightarrow>
   min_ok (recalc (reset_min (set_right t c))) = (min_ok (left_child t) \<and> min_ok c)"
  by (cases t) simp_all

lemma min_ok_set_left:
  "t \<noteq> Null \<Longrightarrow>
   min_ok (recalc (reset_min (set_left t c))) = (min_ok c \<and> min_ok (right_child t))"
  by (cases t) simp_all

lemma min_ok_propagate: "min_ok t \<Longrightarrow> min_ok (propagate t)"
  by (cases t) (auto simp: propagate_Node min_def)

lemma min_ok_children_propagate:
  "min_ok t \<Longrightarrow> t \<noteq> Null \<Longrightarrow>
   min_ok (left_child (propagate t)) \<and> min_ok (right_child (propagate t))"
  by (cases t) (simp_all add: propagate_Node)

lemma get_min_value_propagate [simp]:
  "min_ok t \<Longrightarrow> get_min_value (propagate t) = get_min_value t"
  by (cases t) (auto simp: propagate_Node min_def)

lemma min_ok_merge: "min_ok a \<Longrightarrow> min_ok b \<Longrightarrow> min_ok (merge a b)"
proof (induction a b rule: merge.induct)
  case (1 right)
  then show ?case by simp
next
  case (2 lf ll lr)
  then show ?case by simp
next
  case (3 lf ll lr rf rl rr)
  let ?L = "propagate (Node lf ll lr)"
  let ?R = "propagate (Node rf rl rr)"
  have L: "?L \<noteq> Null" and R: "?R \<noteq> Null" by simp_all
  have sL: "min_ok ?L" and sR: "min_ok ?R"
    using "3.prems" by (simp_all only: min_ok_propagate)
  have cL: "min_ok (left_child ?L) \<and> min_ok (right_child ?L)"
    using min_ok_children_propagate [OF "3.prems"(1)] by simp
  have cR: "min_ok (left_child ?R) \<and> min_ok (right_child ?R)"
    using min_ok_children_propagate [OF "3.prems"(2)] by simp
  show ?case
  proof (cases "get_priority ?L > get_priority ?R")
    case True
    have "min_ok (merge (right_child ?L) ?R)"
      using "3.IH"(1) [OF refl refl True] cL sR by simp
    then show ?thesis
      using True cL
      by (simp add: Let_def min_ok_set_right [OF L] del: get_priority.simps priority_propagate min_ok.simps)
  next
    case False
    have "min_ok (merge ?L (left_child ?R))"
      using "3.IH"(2) [OF refl refl False] cR sL by simp
    then show ?thesis
      using False cR
      by (simp add: Let_def min_ok_set_left [OF R] del: get_priority.simps priority_propagate min_ok.simps)
  qed
qed

lemma min_ok_split:
  "min_ok t \<Longrightarrow> min_ok (fst (split t k)) \<and> min_ok (snd (split t k))"
proof (induction t k rule: split.induct)
  case (1 index)
  show ?case by simp
next
  case (2 f l r index)
  let ?C = "propagate (Node f l r)"
  have C: "?C \<noteq> Null" by simp
  have cC: "min_ok (left_child ?C) \<and> min_ok (right_child ?C)"
    using min_ok_children_propagate [OF "2.prems"] by simp
  show ?case
  proof (cases "get_size (left_child ?C) \<ge> index")
    case True
    have "min_ok (fst (split (left_child ?C) index)) \<and> min_ok (snd (split (left_child ?C) index))"
      using "2.IH"(1) [OF refl True] cC by simp
    then show ?thesis
      using True cC by (simp add: Let_def min_ok_set_left [OF C] del: min_ok.simps)
  next
    case False
    have "min_ok (fst (split (right_child ?C) (index - get_size (left_child ?C) - 1)))
        \<and> min_ok (snd (split (right_child ?C) (index - get_size (left_child ?C) - 1)))"
      using "2.IH"(2) [OF refl False refl] cC by simp
    then show ?thesis
      using False cC by (simp add: Let_def min_ok_set_right [OF C] del: min_ok.simps)
  qed
qed

text \<open>
  Without any bound on the values: the cached minimum, capped at \<open>1 << 30\<close>, is the capped
  minimum of the sequence, and it never exceeds an element. So it is the minimum of the
  sequence whenever that minimum is at most \<open>1 << 30\<close>.
\<close>

lemma min_get_min_value:
  "min_ok t \<Longrightarrow> min (get_min_value t) 1073741824 = seq_min (inorder t)"
proof (induction t)
  case Null
  show ?case by simp
next
  case (Node f l r)
  then have IH: "min (get_min_value l) 1073741824 = seq_min (inorder l)"
    "min (get_min_value r) 1073741824 = seq_min (inorder r)"
    by simp_all
  have m: "min_value_f f = (if l = Null \<and> r = Null then value_f f
             else min (value_f f) (min (get_min_value l) (get_min_value r)))"
    using Node.prems by simp
  have "min (min_value_f f) 1073741824
          = min (value_f f) (min (seq_min (inorder l)) (seq_min (inorder r)))"
    using m IH [symmetric] by (auto simp: min_def)
  then show ?case
    by (auto simp: min_def)
qed

lemma get_min_value_le:
  "min_ok t \<Longrightarrow> x \<in> set (inorder t) \<Longrightarrow> get_min_value t \<le> x"
proof (induction t arbitrary: x)
  case Null
  then show ?case by simp
next
  case (Node f l r)
  have xs: "x \<in> set (inorder l) \<or> x = value_f f \<or> x \<in> set (inorder r)"
    using Node.prems(2) by (auto split: if_splits)
  have m: "min_value_f f = (if l = Null \<and> r = Null then value_f f
             else min (value_f f) (min (get_min_value l) (get_min_value r)))"
    and ok: "min_ok l" "min_ok r"
    using Node.prems(1) by simp_all
  from xs show ?case
  proof (elim disjE)
    assume a: "x \<in> set (inorder l)"
    then have "l \<noteq> Null" by auto
    moreover have "get_min_value l \<le> x" using Node.IH(1) [OF ok(1) a] .
    ultimately show ?thesis using m by (simp add: min_le_iff_disj)
  next
    assume "x = value_f f"
    then show ?thesis using m by (simp add: min_le_iff_disj)
  next
    assume a: "x \<in> set (inorder r)"
    then have "r \<noteq> Null" by auto
    moreover have "get_min_value r \<le> x" using Node.IH(2) [OF ok(2) a] .
    ultimately show ?thesis using m by (simp add: min_le_iff_disj)
  qed
qed

lemma get_min_value_small:
  "min_ok t \<Longrightarrow> seq_min (inorder t) < 1073741824 \<Longrightarrow>
   get_min_value t = seq_min (inorder t)"
  using min_get_min_value [of t] by (simp add: min_def split: if_splits)

lemma get_min_value_Min:
  assumes "min_ok t" and "t \<noteq> Null" and "Min (set (inorder t)) \<le> 1073741824"
  shows "get_min_value t = Min (set (inorder t))"
proof -
  have ne: "inorder t \<noteq> []" using assms(2) by simp
  then have "Min (set (inorder t)) \<in> set (inorder t)" by simp
  then have le: "get_min_value t \<le> Min (set (inorder t))"
    using get_min_value_le [OF assms(1)] by blast
  have "min (get_min_value t) 1073741824 = min (Min (set (inorder t))) 1073741824"
    using min_get_min_value [OF assms(1)] seq_min_eq_Min [OF ne] by simp
  then show ?thesis using le assms(3) by (simp add: min_def split: if_splits)
qed

subsection \<open>The search for the minimum\<close>

lemma same_view_set_left:
  "t \<noteq> Null \<Longrightarrow> \<not> reverse_f (fields t) \<Longrightarrow> size_ok t \<Longrightarrow> min_ok t \<Longrightarrow>
   same_view c (left_child t) \<Longrightarrow> same_view (set_left t c) t"
  by (cases t) (simp_all add: same_view_def)

lemma same_view_set_right:
  "t \<noteq> Null \<Longrightarrow> \<not> reverse_f (fields t) \<Longrightarrow> size_ok t \<Longrightarrow> min_ok t \<Longrightarrow>
   same_view c (right_child t) \<Longrightarrow> same_view (set_right t c) t"
  by (cases t) (simp_all add: same_view_def)

lemma same_view_propagate:
  "size_ok t \<Longrightarrow> min_ok t \<Longrightarrow> same_view (propagate t) t"
  by (simp add: same_view_def size_ok_propagate min_ok_propagate)

lemma same_view_trans: "same_view a b \<Longrightarrow> same_view b c \<Longrightarrow> same_view a c"
  by (simp add: same_view_def)

lemma find_min_same_view:
  "size_ok t \<Longrightarrow> min_ok t \<Longrightarrow> find_min t ip = Inr (i, t') \<Longrightarrow> same_view t' t"
proof (induction t ip arbitrary: i t' rule: find_min.induct)
  case (1 indices_passed)
  then show ?case by (simp add: same_view_def)
next
  case (2 f l r indices_passed)
  let ?C = "propagate (Node f l r)"
  let ?ix = "get_size (left_child ?C) + indices_passed"
  have C: "?C \<noteq> Null" and nC: "\<not> reverse_f (fields ?C)" by simp_all
  have sC: "size_ok ?C" and mC: "min_ok ?C"
    using "2.prems" by (simp_all only: size_ok_propagate min_ok_propagate)
  have cs: "size_ok (left_child ?C) \<and> size_ok (right_child ?C)"
    using size_ok_children_propagate [OF "2.prems"(1)] by simp
  have cm: "min_ok (left_child ?C) \<and> min_ok (right_child ?C)"
    using min_ok_children_propagate [OF "2.prems"(2)] by simp
  have CC: "same_view ?C (Node f l r)"
    using same_view_propagate [OF "2.prems"(1,2)] .
  show ?case
  proof (cases "get_min_value ?C = get_min_value (left_child ?C)")
    case True
    show ?thesis
    proof (cases "left_child ?C = Null")
      case True
      with \<open>get_min_value ?C = get_min_value (left_child ?C)\<close> "2.prems"(3)
      show ?thesis by (simp add: Let_def)
    next
      case False
      from True False "2.prems"(3) obtain c where
        c: "find_min (left_child ?C) indices_passed = Inr (i, c)" and t': "t' = set_left ?C c"
        by (auto simp: Let_def split: sum.splits)
      have "same_view c (left_child ?C)"
        using "2.IH"(1) [OF refl refl True False _ _ c] cs cm by simp
      then show ?thesis
        using same_view_set_left [OF C nC sC mC] CC t' same_view_trans by blast
    qed
  next
    case nl: False
    show ?thesis
    proof (cases "get_min_value ?C = get_min_value (right_child ?C)")
      case True
      show ?thesis
      proof (cases "right_child ?C = Null")
        case True
        with nl \<open>get_min_value ?C = get_min_value (right_child ?C)\<close> "2.prems"(3)
        show ?thesis by (simp add: Let_def)
      next
        case False
        from nl True False "2.prems"(3) obtain c where
          c: "find_min (right_child ?C) (?ix + 1) = Inr (i, c)" and t': "t' = set_right ?C c"
          by (auto simp: Let_def split: sum.splits)
        have "same_view c (right_child ?C)"
          using "2.IH"(2) [OF refl refl nl True False _ _ c] cs cm by simp
        then show ?thesis
          using same_view_set_right [OF C nC sC mC] CC t' same_view_trans by blast
      qed
    next
      case False
      with nl "2.prems"(3) have "t' = ?C" by (simp add: Let_def)
      then show ?thesis using CC by simp
    qed
  qed
qed

lemma seq_min_less:
  "xs \<noteq> [] \<Longrightarrow> \<forall>x\<in>set xs. x < 1073741824 \<Longrightarrow> seq_min xs < 1073741824"
  by (cases xs) (auto simp: min_def)

lemma find_min_index:
  "size_ok t \<Longrightarrow> min_ok t \<Longrightarrow> t \<noteq> Null \<Longrightarrow> seq_min (inorder t) < 1073741824 \<Longrightarrow>
   \<exists>i t'. find_min t ip = Inr (i, t') \<and> ip \<le> i \<and> i < ip + int (length (inorder t)) \<and>
           inorder t ! nat (i - ip) = seq_min (inorder t)"
proof (induction t ip rule: find_min.induct)
  case (1 indices_passed)
  then show ?case by simp
next
  case (2 f l r indices_passed)
  let ?C = "propagate (Node f l r)"
  let ?L = "inorder (left_child ?C)"
  let ?R = "inorder (right_child ?C)"
  let ?v = "value_f (fields ?C)"
  let ?ix = "get_size (left_child ?C) + indices_passed"
  have C: "?C \<noteq> Null" and nC: "\<not> reverse_f (fields ?C)" by simp_all
  have cs: "size_ok (left_child ?C) \<and> size_ok (right_child ?C)"
    using size_ok_children_propagate [OF "2.prems"(1)] by simp
  have cm: "min_ok (left_child ?C) \<and> min_ok (right_child ?C)"
    using min_ok_children_propagate [OF "2.prems"(2)] by simp
  have xs: "inorder (Node f l r) = ?L @ ?v # ?R"
    using inorder_unfold [OF C nC] by (simp del: inorder_Node)
  have small: "seq_min (?L @ ?v # ?R) < 1073741824"
    using "2.prems"(4) unfolding xs .
  have "get_min_value (Node f l r) = seq_min (inorder (Node f l r))"
    using "2.prems"(2,4) by (rule get_min_value_small)
  then have gC: "get_min_value ?C = seq_min (?L @ ?v # ?R)"
    using "2.prems"(2) unfolding xs by (simp only: get_min_value_propagate)
  have mL: "min (get_min_value (left_child ?C)) 1073741824 = seq_min ?L"
    using min_get_min_value [of "left_child ?C"] cm by blast
  have mR: "min (get_min_value (right_child ?C)) 1073741824 = seq_min ?R"
    using min_get_min_value [of "right_child ?C"] cm by blast
  have lenL: "get_size (left_child ?C) = int (length ?L)"
    using cs by (simp add: get_size_length)
  show ?case
  proof (cases "get_min_value ?C = get_min_value (left_child ?C)")
    case True
    then have eq: "seq_min (?L @ ?v # ?R) = seq_min ?L"
      using gC mL small by (simp add: min_def split: if_splits)
    then have sL: "seq_min ?L < 1073741824" using small by simp
    have nn: "left_child ?C \<noteq> Null"
    proof
      assume "left_child ?C = Null"
      then have "seq_min ?L = 1073741824" by simp
      with sL show False by simp
    qed
    from "2.IH"(1) [OF refl refl True nn _ _ nn sL] cs cm obtain i c where
      ic: "find_min (left_child ?C) indices_passed = Inr (i, c)" "indices_passed \<le> i"
        "i < indices_passed + int (length ?L)" "?L ! nat (i - indices_passed) = seq_min ?L"
      by blast
    have "find_min (Node f l r) indices_passed = Inr (i, set_left ?C c)"
      using True nn ic(1) by (simp add: Let_def)
    moreover have "nat (i - indices_passed) < length ?L"
      using ic(2,3) by simp
    then have "(?L @ ?v # ?R) ! nat (i - indices_passed) = seq_min (?L @ ?v # ?R)"
      using ic(4) eq by (simp only: nth_append if_True)
    ultimately show ?thesis
      using ic(2,3) unfolding xs by simp
  next
    case nl: False
    have neqL: "seq_min (?L @ ?v # ?R) \<noteq> seq_min ?L"
    proof
      assume e: "seq_min (?L @ ?v # ?R) = seq_min ?L"
      then have "get_min_value (left_child ?C) = seq_min ?L"
        using mL small by (simp add: min_def split: if_splits)
      with e gC nl show False by simp
    qed
    show ?thesis
    proof (cases "get_min_value ?C = get_min_value (right_child ?C)")
      case True
      then have eq: "seq_min (?L @ ?v # ?R) = seq_min ?R"
        using gC mR small by (simp add: min_def split: if_splits)
      then have sR: "seq_min ?R < 1073741824" using small by simp
      have nn: "right_child ?C \<noteq> Null"
      proof
        assume "right_child ?C = Null"
        then have "seq_min ?R = 1073741824" by simp
        with sR show False by simp
      qed
      from "2.IH"(2) [OF refl refl nl True nn _ _ nn sR] cs cm obtain i c where
        ic: "find_min (right_child ?C) (?ix + 1) = Inr (i, c)" "?ix + 1 \<le> i"
          "i < ?ix + 1 + int (length ?R)" "?R ! nat (i - (?ix + 1)) = seq_min ?R"
        by blast
      have fm: "find_min (Node f l r) indices_passed = Inr (i, set_right ?C c)"
        using nl True nn ic(1) by (simp add: Let_def)
      have "nat (i - indices_passed) = length ?L + Suc (nat (i - (?ix + 1)))"
        using ic(2) lenL by simp
      then have "(?L @ ?v # ?R) ! nat (i - indices_passed) = seq_min (?L @ ?v # ?R)"
        using ic(4) eq by (simp only: nth_append_length_plus nth_Cons_Suc)
      then show ?thesis
        using fm ic(2,3) lenL unfolding xs by simp
    next
      case False
      have neqR: "seq_min (?L @ ?v # ?R) \<noteq> seq_min ?R"
      proof
        assume e: "seq_min (?L @ ?v # ?R) = seq_min ?R"
        then have "get_min_value (right_child ?C) = seq_min ?R"
          using mR small by (simp add: min_def split: if_splits)
        with e gC False show False by simp
      qed
      have "seq_min (?L @ ?v # ?R) = ?v"
        using neqL neqR by (simp add: min_def split: if_splits)
      moreover have "find_min (Node f l r) indices_passed = Inr (?ix, ?C)"
        using nl False by (simp add: Let_def)
      ultimately show ?thesis
        using lenL unfolding xs by simp
    qed
  qed
qed

subsection \<open>The example treap\<close>

lemma example_treap_inorder: "inorder example_treap = [4, 2, 1, 3]"
  by (simp add: example_treap_def)

lemma example_treap_size_ok: "size_ok example_treap"
  by (simp add: example_treap_def)

lemma example_treap_min_ok: "min_ok example_treap"
  by (simp add: example_treap_def)

subsection \<open>Reversing a segment of a list\<close>

lemma segment_decomp:
  assumes "i \<le> j" and "j < length xs"
  obtains a b c where "xs = a @ b @ c" and "length a = i" and "length b = j - i + 1"
    and "reverse_segment xs i j = a @ rev b @ c"
proof
  let ?a = "take i xs" and ?b = "take (j - i + 1) (drop i xs)" and ?c = "drop (j + 1) xs"
  have "drop (j - i + 1) (drop i xs) = ?c"
    using assms by (simp add: add.commute)
  then have "drop i xs = ?b @ ?c"
    using append_take_drop_id [of "j - i + 1" "drop i xs"] by simp
  then show "xs = ?a @ ?b @ ?c"
    using append_take_drop_id [of i xs] by simp
  show "length ?a = i" using assms by simp
  show "length ?b = j - i + 1" using assms by simp
  show "reverse_segment xs i j = ?a @ rev ?b @ ?c" by (simp add: reverse_segment_def)
qed

lemma reverse_segment_append:
  "length a = i \<Longrightarrow> length b = j - i + 1 \<Longrightarrow> i \<le> j \<Longrightarrow>
   reverse_segment (a @ b @ c) i j = a @ rev b @ c"
  by (simp add: reverse_segment_def)

lemma length_reverse_segment [simp]:
  "i \<le> j \<Longrightarrow> j < length xs \<Longrightarrow> length (reverse_segment xs i j) = length xs"
  by (erule (1) segment_decomp) simp

lemma set_reverse_segment [simp]:
  "i \<le> j \<Longrightarrow> j < length xs \<Longrightarrow> set (reverse_segment xs i j) = set xs"
  by (erule (1) segment_decomp) auto

lemma distinct_reverse_segment [simp]:
  "i \<le> j \<Longrightarrow> j < length xs \<Longrightarrow> distinct (reverse_segment xs i j) = distinct xs"
  by (erule (1) segment_decomp) auto

lemma reverse_segment_twice:
  assumes "i \<le> j" and "j < length xs"
  shows "reverse_segment (reverse_segment xs i j) i j = xs"
proof -
  from assms obtain a b c where d: "xs = a @ b @ c" "length a = i" "length b = j - i + 1"
    "reverse_segment xs i j = a @ rev b @ c"
    by (rule segment_decomp)
  have "reverse_segment (a @ rev b @ c) i j = a @ rev (rev b) @ c"
    using d(2,3) assms(1) by (intro reverse_segment_append) simp_all
  then show ?thesis using d(1,4) by simp
qed

lemma reverse_segment_nth:
  assumes "i \<le> j" and "j < length xs" and "k < length xs"
  shows "reverse_segment xs i j ! k = (if i \<le> k \<and> k \<le> j then xs ! (i + j - k) else xs ! k)"
proof -
  from assms(1,2) obtain a b c where d: "xs = a @ b @ c" "length a = i" "length b = j - i + 1"
    "reverse_segment xs i j = a @ rev b @ c"
    by (rule segment_decomp)
  consider "k < i" | "i \<le> k" "k \<le> j" | "j < k" by linarith
  then show ?thesis
  proof cases
    case 1
    then show ?thesis using d by (simp add: nth_append)
  next
    case 2
    have lt: "k - i < length b" "\<not> k < length a" "j - k < length b"
      "\<not> i + j - k < length a" "i + j - k - length a = j - k"
      "length b - Suc (k - i) = j - k"
      using 2 d(2,3) assms(1) by simp_all
    have "(a @ rev b @ c) ! k = rev b ! (k - i)"
      using lt d(2) by (simp add: nth_append)
    also have "\<dots> = b ! (j - k)"
      using lt by (simp add: rev_nth)
    also have "\<dots> = (a @ b @ c) ! (i + j - k)"
      using lt by (simp add: nth_append)
    finally show ?thesis using 2 d(1,4) by simp
  next
    case 3
    have lt: "\<not> k < length a" "\<not> k - length a < length b" "length (rev b) = length b"
      using 3 d(2,3) assms(1) by simp_all
    have "(a @ rev b @ c) ! k = c ! (k - length a - length b)"
      using lt by (simp only: nth_append if_False)
    also have "\<dots> = (a @ b @ c) ! k"
      using lt by (simp only: nth_append if_False)
    finally show ?thesis using 3 d(1,4) by simp
  qed
qed

section \<open>The claims\<close>

text \<open>
  C2. For every treap \<open>t\<close> and every index \<open>k\<close> with \<open>0 \<le> k \<le> size(t)\<close>, merging the two
  parts returned by \<open>split(t, k)\<close> gives a treap whose in-order sequence is the in-order
  sequence of \<open>t\<close>. (By \<open>inorder_split_append\<close> the two parts always are a prefix and the
  matching suffix of the sequence, whatever \<open>k\<close> is.)
\<close>

theorem split_merge_inverse:
  assumes "0 \<le> k" and "k \<le> get_size t"
  shows "inorder (merge (fst (split t k)) (snd (split t k))) = inorder t"
  by (simp add: inorder_split_append)

theorem split_merge_inverse_witness:
  "0 \<le> (3::int) \<and> 3 \<le> get_size example_treap \<and>
   inorder (merge (fst (split example_treap 3)) (snd (split example_treap 3))) = [4, 2, 1, 3]"
proof -
  have h1: "0 \<le> (3::int)" by simp
  have h2: "3 \<le> get_size example_treap" by (simp add: example_treap_def)
  show ?thesis
    using split_merge_inverse [OF h1 h2] h2 by (simp add: example_treap_inorder)
qed

text \<open>
  C5. For all treaps \<open>a\<close> and \<open>b\<close>, the size of \<open>merge(a, b)\<close> is the sum of their sizes; and
  for every treap \<open>t\<close> and every \<open>k\<close> with \<open>0 \<le> k \<le> size(t)\<close>, \<open>split(t, k)\<close> returns a left
  part of size \<open>k\<close> and a right part that holds the rest. Sizes are the cached sizes that
  \<open>get_size\<close> reads, and a treap is a node tree that obeys the size invariant.
\<close>

theorem size_conservation:
  assumes "size_ok a" and "size_ok b" and "size_ok t" and "0 \<le> k" and "k \<le> get_size t"
  shows "get_size (merge a b) = get_size a + get_size b \<and>
         get_size (fst (split t k)) = k \<and>
         get_size (fst (split t k)) + get_size (snd (split t k)) = get_size t"
proof -
  have "get_size (merge a b) = get_size a + get_size b"
    using assms(1,2) by (rule length_inorder_merge)
  moreover have "get_size (fst (split t k)) = int (length (take (nat k) (inorder t)))"
    using size_ok_split [OF assms(3), of k] inorder_split [OF assms(3), of k]
    by (simp add: get_size_length)
  moreover have "get_size (snd (split t k)) = int (length (drop (nat k) (inorder t)))"
    using size_ok_split [OF assms(3), of k] inorder_split [OF assms(3), of k]
    by (simp add: get_size_length)
  moreover have "get_size t = int (length (inorder t))"
    using assms(3) by (rule get_size_length)
  ultimately show ?thesis
    using assms(4,5) by simp
qed

theorem size_conservation_witness:
  "size_ok example_treap \<and> size_ok (new_node 7 3) \<and> 0 \<le> (1::int) \<and> 1 \<le> get_size example_treap \<and>
   get_size (merge example_treap (new_node 7 3)) = 5 \<and>
   get_size (fst (split example_treap 1)) = 1 \<and>
   get_size (fst (split example_treap 1)) + get_size (snd (split example_treap 1)) = 4"
proof -
  have h1: "size_ok example_treap" by (rule example_treap_size_ok)
  have h2: "size_ok (new_node 7 3)" by (simp add: new_node_def)
  have h3: "0 \<le> (1::int)" by simp
  have h4: "1 \<le> get_size example_treap" by (simp add: example_treap_def)
  have g: "get_size example_treap = 4" "get_size (new_node 7 3) = 1"
    by (simp_all add: example_treap_def new_node_def)
  show ?thesis
    using size_conservation [OF h1 h2 h1 h3 h4] h1 h2 h4 g by simp
qed

text \<open>
  C9. On the empty treap \<open>find_min\<close> with no index passed returns the sentinel \<open>-1\<close>, and
  \<open>remove_first\<close> fails its size test, so it returns the empty treap without a split.
\<close>

theorem empty_treap_operations:
  "find_min Null 0 = Inr (- 1, Null) \<and> \<not> 1 \<le> get_size Null \<and> remove_first Null = Null"
  by (simp add: remove_first_def)

text \<open>
  C6, as stated, fails: \<open>recalc\<close> does not start from the node's value but from its cached
  minimum (\<open>get_min_value(x)\<close>), so a stale cached minimum survives. At \<open>stale_node\<close>, whose
  child is correct, the result is 1 and not the minimum 5 of the value and the children.
\<close>

theorem recalc_stale_minimum:
  "stale_node \<noteq> Null \<and> left_child stale_node \<noteq> Null \<and>
   size_ok (left_child stale_node) \<and> min_ok (left_child stale_node) \<and>
   get_min_value (recalc stale_node) = 1 \<and>
   min (get_value stale_node)
     (min (get_min_value (left_child stale_node)) (get_min_value (right_child stale_node))) = 5"
  by (simp add: stale_node_def new_node_def)

text \<open>
  C6, amended. \<open>recalc\<close> is the identity on the null reference. On a node it keeps the
  children, the value, the priority and the flag, and sets the size to one more than the
  children's sizes. For a leaf it sets the height to 0 and the cached minimum to the value.
  For a node with a child it sets the height to one more than the larger child height,
  and the cached minimum to the least of the \<^emph>\<open>previous cached minimum\<close> and the children's
  cached minima; after \<open>reset_min\<close> that is the least of the value and the children's
  cached minima.
\<close>

theorem recalc_fields:
  "recalc Null = Null \<and>
   left_child (recalc (Node f l r)) = l \<and> right_child (recalc (Node f l r)) = r \<and>
   get_value (recalc (Node f l r)) = value_f f \<and>
   get_priority (recalc (Node f l r)) = priority_f f \<and>
   reverse_f (fields (recalc (Node f l r))) = reverse_f f \<and>
   get_size (recalc (Node f l r)) = 1 + get_size l + get_size r \<and>
   get_height (recalc (Node f l r)) =
     (if l = Null \<and> r = Null then 0 else 1 + max (get_height l) (get_height r)) \<and>
   get_min_value (recalc (Node f l r)) =
     (if l = Null \<and> r = Null then value_f f
      else min (min_value_f f) (min (get_min_value l) (get_min_value r))) \<and>
   get_min_value (recalc (reset_min (Node f l r))) =
     (if l = Null \<and> r = Null then value_f f
      else min (value_f f) (min (get_min_value l) (get_min_value r)))"
  by simp

text \<open>
  C10. In a treap (cached sizes and minima consistent) whose values all lie below
  \<open>1 << 30\<close>, \<open>find_min\<close> never invokes itself through a null child: it returns an index.
  A treap that holds a value of at least \<open>1 << 30\<close> can make it do so; the one-node treap
  with the value \<open>1 << 30\<close> is such a treap.
\<close>

theorem find_min_null_guard:
  assumes "size_ok t" and "min_ok t" and "\<forall>x\<in>set (inorder t). x < 1073741824"
  shows "(\<exists>i t'. find_min t ip = Inr (i, t')) \<and>
         (\<exists>u. size_ok u \<and> min_ok u \<and> (\<exists>x\<in>set (inorder u). 1073741824 \<le> x) \<and>
              find_min u ip = Inl NullReceiver)"
proof
  show "\<exists>i t'. find_min t ip = Inr (i, t')"
  proof (cases "t = Null")
    case True
    then show ?thesis by simp
  next
    case False
    then have "seq_min (inorder t) < 1073741824"
      using assms(3) by (intro seq_min_less) simp_all
    from find_min_index [OF assms(1,2) False this, of ip] show ?thesis by blast
  qed
next
  let ?u = "new_node 1073741824 0"
  have "size_ok ?u \<and> min_ok ?u \<and> (\<exists>x\<in>set (inorder ?u). 1073741824 \<le> x) \<and>
        find_min ?u ip = Inl NullReceiver"
    by (simp add: new_node_def Let_def propagate_Node)
  then show "\<exists>u. size_ok u \<and> min_ok u \<and> (\<exists>x\<in>set (inorder u). 1073741824 \<le> x) \<and>
              find_min u ip = Inl NullReceiver"
    by blast
qed

theorem find_min_null_guard_witness:
  "size_ok example_treap \<and> min_ok example_treap \<and> inorder example_treap = [4, 2, 1, 3] \<and>
   (\<exists>i t'. find_min example_treap 0 = Inr (i, t'))"
proof -
  have h3: "\<forall>x\<in>set (inorder example_treap). x < 1073741824"
    by (simp add: example_treap_inorder)
  show ?thesis
    using find_min_null_guard [OF example_treap_size_ok example_treap_min_ok h3, of 0]
      example_treap_size_ok example_treap_min_ok example_treap_inorder by blast
qed

subsection \<open>The position of the minimum\<close>

lemma first_occurrence:
  "x \<in> set xs \<Longrightarrow>
   length (takeWhile (\<lambda>y. y \<noteq> x) xs) < length xs \<and>
   xs ! length (takeWhile (\<lambda>y. y \<noteq> x) xs) = x"
  by (induction xs) auto

lemma leftmost_min_position_distinct:
  assumes "distinct xs" and "i < length xs" and "xs ! i = Min (set xs)"
  shows "leftmost_min_position xs = int i"
proof -
  let ?j = "length (takeWhile (\<lambda>x. x \<noteq> Min (set xs)) xs)"
  have "Min (set xs) \<in> set xs" using assms(2,3) nth_mem [of i xs] by simp
  from first_occurrence [OF this] have j: "?j < length xs" "xs ! ?j = Min (set xs)"
    by simp_all
  have "?j = i"
    using assms j nth_eq_iff_index_eq [of xs ?j i] by simp
  then show ?thesis by (simp add: leftmost_min_position_def)
qed

lemma find_min_returns_minimum:
  assumes "size_ok t" and "min_ok t" and "t \<noteq> Null"
    and "Min (set (inorder t)) < 1073741824"
  shows "\<exists>i t'. find_min t 0 = Inr (i, t') \<and> 0 \<le> i \<and> i < int (length (inorder t)) \<and>
           inorder t ! nat i = Min (set (inorder t)) \<and> inorder t' = inorder t \<and>
           (distinct (inorder t) \<longrightarrow> i = leftmost_min_position (inorder t))"
proof -
  have ne: "inorder t \<noteq> []" using assms(3) by simp
  have M: "seq_min (inorder t) = Min (set (inorder t))"
    using seq_min_eq_Min [OF ne] assms(4) by simp
  then have "seq_min (inorder t) < 1073741824" using assms(4) by simp
  from find_min_index [OF assms(1,2,3) this, of 0] obtain i t' where
    f: "find_min t 0 = Inr (i, t')" and i: "0 \<le> i" "i < int (length (inorder t))"
    and m: "inorder t ! nat i = seq_min (inorder t)"
    by auto
  have v: "same_view t' t" using find_min_same_view [OF assms(1,2) f] .
  have "distinct (inorder t) \<longrightarrow> i = leftmost_min_position (inorder t)"
  proof
    assume "distinct (inorder t)"
    then have "leftmost_min_position (inorder t) = int (nat i)"
      using i m M by (intro leftmost_min_position_distinct) simp_all
    then show "i = leftmost_min_position (inorder t)" using i by simp
  qed
  then show ?thesis
    using f i m M v by (auto simp: same_view_def)
qed

text \<open>
  C4, as stated, fails twice. The treap built from 1, 1 with priorities 5 and 2 has its
  first element at the root and the second in the right subtree; \<open>find_min\<close> tests the
  right subtree before the node itself and returns position 1, not the leftmost position
  0. And on the one-node treap with the value \<open>1 << 30\<close> it returns no position at all.
\<close>

theorem find_min_not_leftmost:
  "build_loop (new_node 1 5) [(1, 2)] = Inr duplicate_treap \<and>
   inorder duplicate_treap = [1, 1] \<and>
   leftmost_min_position (inorder duplicate_treap) = 0 \<and>
   find_min duplicate_treap 0 = Inr (1, duplicate_treap) \<and>
   inorder (new_node 1073741824 0) = [1073741824] \<and>
   find_min (new_node 1073741824 0) 0 = Inl NullReceiver"
  by (simp add: duplicate_treap_def new_node_def leftmost_min_position_def Let_def propagate_Node)

text \<open>
  C4, amended. For every non-empty treap (cached sizes and minima consistent) whose least
  value lies below \<open>1 << 30\<close>, \<open>find_min\<close> with no index passed returns the 0-based in-order
  position of a node that holds the least value, and leaves the sequence as it was. When
  the values are pairwise distinct, that is the leftmost (and only) position of the
  minimum. Values of \<open>1 << 30\<close> and more may stand elsewhere in the treap.
\<close>

theorem find_min_position:
  assumes "size_ok t" and "min_ok t" and "t \<noteq> Null"
    and "Min (set (inorder t)) < 1073741824"
  shows "\<exists>i t'. find_min t 0 = Inr (i, t') \<and> 0 \<le> i \<and> i < int (length (inorder t)) \<and>
           inorder t ! nat i = Min (set (inorder t)) \<and> inorder t' = inorder t \<and>
           (distinct (inorder t) \<longrightarrow> i = leftmost_min_position (inorder t))"
  using assms by (rule find_min_returns_minimum)

theorem find_min_position_witness:
  "build_loop (new_node 2000000000 3) [(1, 9), (1500000000, 5)] = Inr mixed_treap \<and>
   size_ok mixed_treap \<and> min_ok mixed_treap \<and> mixed_treap \<noteq> Null \<and>
   inorder mixed_treap = [2000000000, 1, 1500000000] \<and>
   Min (set (inorder mixed_treap)) < 1073741824 \<and>
   (\<exists>t'. find_min mixed_treap 0 = Inr (1, t') \<and> inorder t' = [2000000000, 1, 1500000000])"
proof -
  have i: "inorder mixed_treap = [2000000000, 1, 1500000000]"
    by (simp add: mixed_treap_def)
  have h1: "size_ok mixed_treap" and h2: "min_ok mixed_treap" and h3: "mixed_treap \<noteq> Null"
    by (simp_all add: mixed_treap_def)
  have h4: "Min (set (inorder mixed_treap)) < 1073741824" by (simp add: i)
  have b: "build_loop (new_node 2000000000 3) [(1, 9), (1500000000, 5)] = Inr mixed_treap"
    by code_simp
  have d: "distinct (inorder mixed_treap)" by (simp add: i)
  have l: "leftmost_min_position (inorder mixed_treap) = 1"
    by (simp add: i leftmost_min_position_def)
  show ?thesis
    using find_min_position [OF h1 h2 h3 h4] h1 h2 h3 h4 d l b
    by (auto simp: i)
qed

subsection \<open>Reversal of a range\<close>

lemma reverse_subarray_eq:
  "reverse_subarray t from to =
     (if fst (split (snd (split t from)) (to - from + 1)) = Null then Inl NullDereference
      else Inr (merge (merge (fst (split t from))
                        (toggle_reverse (fst (split (snd (split t from)) (to - from + 1)))))
                  (snd (split (snd (split t from)) (to - from + 1)))))"
  by (simp add: reverse_subarray_def Let_def)

lemma reverse_subarray_invariants:
  assumes "size_ok t" and "min_ok t" and "reverse_subarray t from to = Inr t'"
  shows "size_ok t' \<and> min_ok t'"
proof -
  let ?rest = "snd (split t from)"
  let ?n = "to - from + 1"
  have 1: "size_ok (fst (split t from))" "size_ok ?rest"
    "min_ok (fst (split t from))" "min_ok ?rest"
    using size_ok_split [OF assms(1), of "from"] min_ok_split [OF assms(2), of "from"]
    by simp_all
  have 2: "size_ok (fst (split ?rest ?n))" "size_ok (snd (split ?rest ?n))"
    "min_ok (fst (split ?rest ?n))" "min_ok (snd (split ?rest ?n))"
    using size_ok_split [OF 1(2), of ?n] min_ok_split [OF 1(4), of ?n] by simp_all
  have "t' = merge (merge (fst (split t from)) (toggle_reverse (fst (split ?rest ?n))))
               (snd (split ?rest ?n))"
    using assms(3) by (simp add: reverse_subarray_eq split: if_splits)
  then show ?thesis
    using 1 2 by (simp add: size_ok_merge min_ok_merge)
qed

lemma reverse_subarray_inorder:
  assumes "size_ok t" and "0 \<le> from" and "from \<le> to" and "to < get_size t"
  shows "\<exists>t'. reverse_subarray t from to = Inr t' \<and> size_ok t' \<and>
           inorder t' = reverse_segment (inorder t) (nat from) (nat to)"
proof -
  let ?rest = "snd (split t from)"
  let ?n = "to - from + 1"
  let ?sub = "fst (split ?rest ?n)"
  let ?xs = "inorder t"
  have len: "to < int (length ?xs)"
    using assms(1,4) by (simp add: get_size_length)
  have 1: "size_ok (fst (split t from))" "size_ok ?rest"
    using size_ok_split [OF assms(1), of "from"] by simp_all
  have 2: "size_ok ?sub" "size_ok (snd (split ?rest ?n))"
    using size_ok_split [OF 1(2), of ?n] by simp_all
  have i1: "inorder (fst (split t from)) = take (nat from) ?xs"
    "inorder ?rest = drop (nat from) ?xs"
    using inorder_split [OF assms(1), of "from"] by simp_all
  have i2: "inorder ?sub = take (nat ?n) (drop (nat from) ?xs)"
    "inorder (snd (split ?rest ?n)) = drop (nat ?n) (drop (nat from) ?xs)"
    using inorder_split [OF 1(2), of ?n] i1 by simp_all
  have n: "nat ?n = nat to - nat from + 1" "nat ?n + nat from = nat to + 1"
    using assms(2,3) by simp_all
  have "inorder ?sub \<noteq> []"
    using i2(1) len assms(2,3) by simp
  then have nn: "?sub \<noteq> Null" by simp
  let ?t' = "merge (merge (fst (split t from)) (toggle_reverse ?sub)) (snd (split ?rest ?n))"
  have "reverse_subarray t from to = Inr ?t'"
    using nn by (simp add: reverse_subarray_eq)
  moreover have "size_ok ?t'"
    using 1 2 by (simp add: size_ok_merge)
  moreover have "inorder ?t' = reverse_segment ?xs (nat from) (nat to)"
    using i1 i2 n by (simp add: reverse_segment_def)
  ultimately show ?thesis by blast
qed

text \<open>
  C1. For every treap \<open>t\<close> and all indices with \<open>0 \<le> from \<le> to < size(t)\<close>,
  \<open>reverse_subarray\<close> returns the treap obtained by splitting at \<open>from\<close>, splitting the
  remainder at \<open>to - from + 1\<close>, toggling the flag at the root of the segment and merging
  the three parts back in their order; and the in-order sequence of that treap is the
  sequence of \<open>t\<close> with the closed segment \<open>from..to\<close> reversed and every other position
  unchanged (\<open>reverse_segment\<close>, whose elements \<open>reverse_segment_nth\<close> gives position by
  position).
\<close>

theorem reverse_subarray_correct:
  assumes "size_ok t" and "0 \<le> from" and "from \<le> to" and "to < get_size t"
  shows "reverse_subarray t from to =
           Inr (merge (merge (fst (split t from))
                        (toggle_reverse (fst (split (snd (split t from)) (to - from + 1)))))
                  (snd (split (snd (split t from)) (to - from + 1)))) \<and>
         (\<exists>t'. reverse_subarray t from to = Inr t' \<and>
               inorder t' = reverse_segment (inorder t) (nat from) (nat to))"
proof -
  from reverse_subarray_inorder [OF assms] obtain t' where
    t': "reverse_subarray t from to = Inr t'"
      "inorder t' = reverse_segment (inorder t) (nat from) (nat to)"
    by blast
  then have "fst (split (snd (split t from)) (to - from + 1)) \<noteq> Null"
    by (auto simp: reverse_subarray_eq split: if_splits)
  then show ?thesis
    using t' by (auto simp: reverse_subarray_eq)
qed

theorem reverse_subarray_correct_witness:
  "size_ok example_treap \<and> (0::int) \<le> 1 \<and> (1::int) \<le> 2 \<and> 2 < get_size example_treap \<and>
   (\<exists>t'. reverse_subarray example_treap 1 2 = Inr t' \<and> inorder t' = [4, 1, 2, 3])"
proof -
  have h: "(0::int) \<le> 1" "(1::int) \<le> 2" "2 < get_size example_treap"
    by (simp_all add: example_treap_def)
  have r: "reverse_segment [4, 2, 1, 3] (nat 1) (nat 2) = [4, 1, 2, 3]"
    by (simp add: reverse_segment_def)
  from reverse_subarray_correct [OF example_treap_size_ok h]
  have "\<exists>t'. reverse_subarray example_treap 1 2 = Inr t' \<and>
          inorder t' = reverse_segment (inorder example_treap) (nat 1) (nat 2)"
    by (rule conjunct2)
  then have "\<exists>t'. reverse_subarray example_treap 1 2 = Inr t' \<and> inorder t' = [4, 1, 2, 3]"
    by (simp only: example_treap_inorder r)
  then show ?thesis
    using example_treap_size_ok h by simp
qed

text \<open>
  C7. For every treap \<open>t\<close> and all positions with \<open>0 \<le> i \<le> j < size(t)\<close>, reversing the
  range \<open>i..j\<close> twice succeeds both times and gives a treap with the in-order sequence
  of \<open>t\<close>.
\<close>

theorem reverse_subarray_twice:
  assumes "size_ok t" and "0 \<le> i" and "i \<le> j" and "j < get_size t"
  shows "\<exists>t1 t2. reverse_subarray t i j = Inr t1 \<and> reverse_subarray t1 i j = Inr t2 \<and>
           inorder t2 = inorder t"
proof -
  from reverse_subarray_inorder [OF assms] obtain t1 where
    t1: "reverse_subarray t i j = Inr t1" "size_ok t1"
      "inorder t1 = reverse_segment (inorder t) (nat i) (nat j)"
    by blast
  have len: "nat i \<le> nat j" "nat j < length (inorder t)"
    using assms by (simp_all add: get_size_length)
  have "get_size t1 = get_size t"
    using t1(2,3) assms(1) len by (simp add: get_size_length)
  then have "j < get_size t1" using assms(4) by simp
  from reverse_subarray_inorder [OF t1(2) assms(2,3) this] obtain t2 where
    t2: "reverse_subarray t1 i j = Inr t2"
      "inorder t2 = reverse_segment (inorder t1) (nat i) (nat j)"
    by blast
  have "inorder t2 = inorder t"
    using t2(2) t1(3) reverse_segment_twice [OF len] by simp
  then show ?thesis using t1(1) t2(1) by blast
qed

theorem reverse_subarray_twice_witness:
  "size_ok example_treap \<and> (0::int) \<le> 1 \<and> (1::int) \<le> 2 \<and> 2 < get_size example_treap \<and>
   (\<exists>t1 t2. reverse_subarray example_treap 1 2 = Inr t1 \<and> reverse_subarray t1 1 2 = Inr t2 \<and>
      inorder t2 = [4, 2, 1, 3])"
proof -
  have h: "(0::int) \<le> 1" "(1::int) \<le> 2" "2 < get_size example_treap"
    by (simp_all add: example_treap_def)
  show ?thesis
    using reverse_subarray_twice [OF example_treap_size_ok h] example_treap_size_ok h
    by (simp add: example_treap_inorder)
qed

subsection \<open>Building, and sequences of operations\<close>

lemma new_node_simps [simp]:
  "new_node v p \<noteq> Null" "size_ok (new_node v p)" "min_ok (new_node v p)"
  "inorder (new_node v p) = [v]"
  by (simp_all add: new_node_def)

lemma merge_eq_Null [simp]: "merge a b = Null \<longleftrightarrow> a = Null \<and> b = Null"
  using inorder_merge [of a b] inorder_eq_Nil [of "merge a b"]
  by (simp del: inorder_merge inorder_eq_Nil add: inorder_eq_Nil [symmetric])

lemma build_loop_invariants:
  "root \<noteq> Null \<Longrightarrow> size_ok root \<Longrightarrow> min_ok root \<Longrightarrow>
   \<exists>t. build_loop root rest = Inr t \<and> t \<noteq> Null \<and> size_ok t \<and> min_ok t \<and>
       inorder t = inorder root @ map fst rest"
proof (induction rest arbitrary: root)
  case Nil
  then show ?case by simp
next
  case (Cons a rest)
  obtain v p where a: "a = (v, p)" by (cases a)
  let ?r = "merge root (new_node v p)"
  have "?r \<noteq> Null" "size_ok ?r" "min_ok ?r"
    using Cons.prems by (simp_all add: size_ok_merge min_ok_merge)
  from Cons.IH [OF this] obtain t where
    "build_loop ?r rest = Inr t" "t \<noteq> Null" "size_ok t" "min_ok t"
    "inorder t = inorder ?r @ map fst rest"
    by blast
  then show ?case
    using Cons.prems(1) a by simp
qed

lemma remove_first_invariants:
  "size_ok t \<Longrightarrow> min_ok t \<Longrightarrow> size_ok (remove_first t) \<and> min_ok (remove_first t)"
  using size_ok_split [of t 1] min_ok_split [of t 1]
  by (simp add: remove_first_def Let_def)

lemma apply_operation_invariants:
  assumes "size_ok t" and "min_ok t" and "apply_operation t x = Inr t'"
  shows "size_ok t' \<and> min_ok t'"
proof (cases x)
  case (ReverseSubarray a b)
  then show ?thesis
    using assms reverse_subarray_invariants [of t a b t'] by simp
next
  case RemoveFirst
  then show ?thesis
    using assms remove_first_invariants [of t] by auto
next
  case FindMin
  then obtain i where "find_min t 0 = Inr (i, t')"
    using assms(3) by (auto split: sum.splits)
  from find_min_same_view [OF assms(1,2) this] show ?thesis
    by (simp add: same_view_def)
qed

lemma run_operations_invariants:
  "size_ok t \<Longrightarrow> min_ok t \<Longrightarrow> run_operations t xs = Inr t' \<Longrightarrow> size_ok t' \<and> min_ok t'"
proof (induction xs arbitrary: t)
  case Nil
  then show ?case by simp
next
  case (Cons x xs)
  from Cons.prems(3) obtain u where
    u: "apply_operation t x = Inr u" "run_operations u xs = Inr t'"
    by (auto split: sum.splits)
  from apply_operation_invariants [OF Cons.prems(1,2) u(1)] Cons.IH [OF _ _ u(2)]
  show ?case by blast
qed

text \<open>
  Every treap the program can hold obeys both invariants: the built treap does, and each
  public operation keeps them.
\<close>

lemma built_treap_invariants:
  assumes "build_loop (new_node v p) rest = Inr t0" and "run_operations t0 ops = Inr t"
  shows "size_ok t \<and> min_ok t"
proof -
  from build_loop_invariants [of "new_node v p" rest] assms(1)
  have "size_ok t0" "min_ok t0" by auto
  from run_operations_invariants [OF this assms(2)] show ?thesis .
qed

text \<open>
  How far the cached minimum can be trusted: in every non-empty treap the program can
  hold, each node caches what \<open>recalc\<close> computes from its value and its children, and the
  root's cached minimum, after propagation, is the least element of the sequence whenever
  that element is at most \<open>1 << 30\<close>.
\<close>

lemma cached_minimum_of_small_minimum:
  assumes "build_loop (new_node v p) rest = Inr t0" and "run_operations t0 ops = Inr t"
    and "t \<noteq> Null"
  shows "min_ok (propagate t) \<and>
         (Min (set (inorder t)) \<le> 1073741824 \<longrightarrow>
            get_min_value (propagate t) = Min (set (inorder t)))"
proof -
  from built_treap_invariants [OF assms(1,2)] have t: "min_ok t" by simp
  show ?thesis
    using get_min_value_Min [OF t assms(3)] min_ok_propagate [OF t] t by simp
qed

text \<open>
  C3. In every treap reached by the public operations, the root's cached minimum after
  propagation is the least element of the in-order sequence; the member \<open>min_value\<close> is
  documented as the minimum value contained in the subtree. The code does not keep this
  for values above \<open>1 << 30\<close>: \<open>get_min_value\<close> reads a missing child as \<open>1 << 30\<close>, and \<open>recalc\<close>
  takes that number into the minimum of a node with one child. The treap built from
  1073741825, 1073741826 caches 1073741824 at its root, which is no element of the
  sequence, and the query loop of \<open>main\<close> then follows that number into the missing child.
\<close>

theorem cached_minimum_large_values:
  "build_loop (new_node 1073741825 0) [(1073741826, 0)] = Inr large_treap \<and>
   run_operations large_treap [] = Inr large_treap \<and>
   inorder large_treap = [1073741825, 1073741826] \<and>
   get_min_value (propagate large_treap) = 1073741824 \<and>
   Min (set (inorder large_treap)) = 1073741825 \<and>
   main [(1073741825, 0), (1073741826, 0)] = Inl NullReceiver"
proof -
  have "main [(1073741825, 0), (1073741826, 0)] = Inl NullReceiver"
    by code_simp
  then show ?thesis
    by (simp add: large_treap_def new_node_def Let_def propagate_Node)
qed

subsection \<open>The driver follows the driving procedure\<close>

lemma single_node_value:
  "inorder t = [y] \<Longrightarrow> (case t of Null \<Rightarrow> [] | Node f l r \<Rightarrow> [value_f f]) = [y]"
  by (cases t) (auto simp: append_eq_Cons_conv Cons_eq_append_conv split: if_splits)

lemma remove_first_inorder:
  assumes "size_ok t" and "t \<noteq> Null"
  shows "inorder (remove_first t) = tl (inorder t) \<and>
         deleted_values t = take 1 (inorder t)"
proof -
  have len: "get_size t = int (length (inorder t))"
    using assms(1) by (rule get_size_length)
  have ne: "inorder t \<noteq> []" using assms(2) by simp
  then have ge: "get_size t \<ge> 1"
    using len by (cases "inorder t") simp_all
  have sp: "inorder (fst (split t 1)) = take 1 (inorder t)"
    "inorder (snd (split t 1)) = drop 1 (inorder t)"
    using inorder_split [OF assms(1), of 1] by simp_all
  obtain y ys where ys: "inorder t = y # ys" using ne by (cases "inorder t") auto
  have "inorder (fst (split t 1)) = [y]" using sp(1) ys by simp
  from single_node_value [OF this] have "deleted_values t = [y]"
    using ge by (simp add: deleted_values_def)
  then show ?thesis
    using ge sp(2) ys by (simp add: remove_first_def Let_def drop_Suc)
qed

lemma queries_refines:
  "size_ok t \<Longrightarrow> min_ok t \<Longrightarrow> distinct (inorder t) \<Longrightarrow>
   \<forall>x\<in>set (inorder t). x < 1073741824 \<Longrightarrow> length (inorder t) = n \<Longrightarrow>
   queries n i t =
     Inr (fst (driving_procedure n i (inorder t)), snd (driving_procedure n i (inorder t)), Null)"
proof (induction n arbitrary: i t)
  case 0
  then show ?case by simp
next
  case (Suc n)
  let ?xs = "inorder t"
  have nn: "t \<noteq> Null" using Suc.prems(5) by auto
  have "Min (set ?xs) \<in> set ?xs" using nn by simp
  then have "Min (set ?xs) < 1073741824" using Suc.prems(4) by blast
  from find_min_returns_minimum [OF Suc.prems(1,2) nn this] Suc.prems(3)
  obtain k t1 where
    f: "find_min t 0 = Inr (k, t1)" and k: "0 \<le> k" "k < int (length ?xs)"
    and t1: "inorder t1 = ?xs" and kl: "k = leftmost_min_position ?xs"
    by blast
  have v: "same_view t1 t" using find_min_same_view [OF Suc.prems(1,2) f] .
  then have s1: "size_ok t1" and m1: "min_ok t1" by (simp_all add: same_view_def)
  let ?ys = "if k \<noteq> 0 then reverse_segment ?xs 0 (nat k) else ?xs"
  have "\<exists>t2. (if k \<noteq> 0 then reverse_subarray t1 0 k else Inr t1) = Inr t2 \<and>
          size_ok t2 \<and> min_ok t2 \<and> inorder t2 = ?ys"
  proof (cases "k = 0")
    case True
    then show ?thesis using s1 m1 t1 by simp
  next
    case False
    have "k < get_size t1" using k(2) s1 t1 by (simp add: get_size_length)
    from reverse_subarray_inorder [OF s1 _ k(1) this] obtain t2 where
      t2: "reverse_subarray t1 0 k = Inr t2" "size_ok t2"
        "inorder t2 = reverse_segment (inorder t1) (nat 0) (nat k)"
      by auto
    from reverse_subarray_invariants [OF s1 m1 t2(1)] have "min_ok t2" by simp
    then show ?thesis using False t2 t1 by simp
  qed
  then obtain t2 where
    r: "(if k \<noteq> 0 then reverse_subarray t1 0 k else Inr t1) = Inr t2"
    and s2: "size_ok t2" and m2: "min_ok t2" and i2: "inorder t2 = ?ys"
    by blast
  have kn: "nat k < length ?xs" using k by simp
  have ly: "length ?ys = Suc n" "distinct ?ys" "set ?ys = set ?xs"
    using Suc.prems(3,5) kn by simp_all
  have nn2: "t2 \<noteq> Null" using ly(1) i2 by auto
  from remove_first_inorder [OF s2 nn2] have
    rf: "inorder (remove_first t2) = tl ?ys" "deleted_values t2 = take 1 ?ys"
    using i2 by simp_all
  have inv: "size_ok (remove_first t2)" "min_ok (remove_first t2)"
    using remove_first_invariants [OF s2 m2] by simp_all
  have d: "distinct (tl ?ys)" using ly(2) by (rule distinct_tl)
  have "set (tl ?ys) \<subseteq> set ?ys"
    using ly(1) list.set_sel(2) [of ?ys] by (cases ?ys) auto
  then have b: "\<forall>x\<in>set (tl ?ys). x < 1073741824"
    using Suc.prems(4) ly(3) by blast
  have l: "length (tl ?ys) = n" using ly(1) by simp
  have IH: "queries n (i + 1) (remove_first t2) =
      Inr (fst (driving_procedure n (i + 1) (tl ?ys)),
           snd (driving_procedure n (i + 1) (tl ?ys)), Null)"
    using Suc.IH [of "remove_first t2" "i + 1"] inv d b l
    unfolding rf(1) by blast
  have "queries (Suc n) i t =
      Inr ((k + i + 1) # fst (driving_procedure n (i + 1) (tl ?ys)),
           take 1 ?ys @ snd (driving_procedure n (i + 1) (tl ?ys)), Null)"
    using nn f r nn2 IH rf(2) by (simp del: driving_procedure.simps)
  then show ?case
    using kl by (simp add: Let_def)
qed

lemma driving_procedure_example:
  "driving_procedure (Suc (Suc (Suc (Suc 0)))) 0 [4, 2, 1, 3] = ([3, 2, 4, 4], [1, 2, 3, 4])"
  by code_simp

text \<open>
  C8. On the input 4, 2, 1, 3 the program prints 3, 2, 4, 4, whatever priorities the four
  nodes draw; the elements it removes from the front, in the order of removal, are the
  sorted sequence 1, 2, 3, 4, and the treap is empty at the end.
\<close>

theorem sort_by_reversal_example:
  "main [(4, p0), (2, p1), (1, p2), (3, p3)] = Inr ([3, 2, 4, 4], [1, 2, 3, 4], Null)"
proof -
  let ?n = "Suc (Suc (Suc (Suc 0)))"
  from build_loop_invariants [of "new_node 4 p0" "[(2, p1), (1, p2), (3, p3)]"]
  obtain t where t: "build_loop (new_node 4 p0) [(2, p1), (1, p2), (3, p3)] = Inr t"
    "size_ok t" "min_ok t" "inorder t = [4, 2, 1, 3]"
    by auto
  have "queries ?n 0 t =
      Inr (fst (driving_procedure ?n 0 (inorder t)), snd (driving_procedure ?n 0 (inorder t)), Null)"
    using t(2,3) by (rule queries_refines) (simp_all add: t(4))
  then have "queries ?n 0 t = Inr ([3, 2, 4, 4], [1, 2, 3, 4], Null)"
    by (simp only: t(4) driving_procedure_example fst_conv snd_conv)
  then show ?thesis
    using t(1) by (simp add: main_def del: queries.simps build_loop.simps)
qed

end
